theory Spec2Isabelle
  imports Main
begin

section \<open>MoodMate: the rolling-window emotion stabiliser of \<^verbatim>\<open>moodmate_final.py\<close>\<close>

text \<open>
  The development embeds the class \<^verbatim>\<open>EmotionAnalyzer\<close> of \<^verbatim>\<open>moodmate_final.py\<close>: its
  bounded window of per-frame labels, the mode vote of \<^verbatim>\<open>run\<close>, the per-frame prediction
  \<^verbatim>\<open>_predict\<close> with its two fallbacks, and the controls \<^verbatim>\<open>pause\<close>, \<^verbatim>\<open>resume\<close>, \<^verbatim>\<open>stop\<close>
  and \<^verbatim>\<open>get_stable\<close>. Labels are Python strings, modelled as \<open>string\<close>. A run is a sequence
  of passes through the body of the \<^verbatim>\<open>while\<close> loop of \<^verbatim>\<open>run\<close> and of calls made by the user
  interface (\<^verbatim>\<open>pause\<close>, \<^verbatim>\<open>resume\<close>, \<^verbatim>\<open>stop\<close>). The loop tests \<^verbatim>\<open>self.paused\<close> without the
  lock and takes the lock only for its last block, so a call of the user interface can also
  fall inside a pass: the pass is therefore given both whole (\<open>run_iteration\<close>) and in its
  two parts (\<open>pass_begin\<close>, \<open>pass_commit\<close>).
\<close>

subsection \<open>Detection config and label tables\<close>

definition ROLLING_WINDOW :: nat where
  "ROLLING_WINDOW = 7"

definition STABLE_THRESHOLD :: nat where
  "STABLE_THRESHOLD = 3"

text \<open>The dictionary \<^verbatim>\<open>EMOTION_MAP\<close>, in the order it is written.\<close>

definition EMOTION_MAP :: "(string \<times> string) list" where
  "EMOTION_MAP =
     [(''happy'', ''happy''), (''sad'', ''sad''), (''neutral'', ''neutral''),
      (''angry'', ''angry''), (''surprise'', ''surprise''), (''fear'', ''fear''),
      (''disgust'', ''disgust'')]"

text \<open>\<^verbatim>\<open>list(EMOJI.keys())\<close> and \<^verbatim>\<open>list(MOOD_TEXT.keys())\<close>: only the keys are used by the analyzer.\<close>

definition EMOJI_keys :: "string list" where
  "EMOJI_keys = [''happy'', ''sad'', ''neutral'', ''angry'', ''surprise'', ''fear'', ''disgust'']"

definition MOOD_TEXT_keys :: "string list" where
  "MOOD_TEXT_keys = [''happy'', ''sad'', ''neutral'', ''angry'', ''surprise'', ''fear'', ''disgust'']"

subsection \<open>Library behaviour the analyzer relies on\<close>

text \<open>Exceptions that the modelled code can meet; all of them derive from \<^verbatim>\<open>Exception\<close>.\<close>

datatype exn = StatisticsError | IndexError | ClassifierError

text \<open>Truthiness of a Python string: only the empty string is falsy.\<close>

definition truthy :: "string \<Rightarrow> bool" where
  "truthy s = (s \<noteq> [])"

text \<open>
  \<^verbatim>\<open>collections.deque(maxlen=n).append(x)\<close>: the item is appended on the right and, when
  the deque is then longer than \<^verbatim>\<open>maxlen\<close>, one item is popped on the left.
\<close>

definition deque_append :: "nat \<Rightarrow> 'a list \<Rightarrow> 'a \<Rightarrow> 'a list" where
  "deque_append maxlen d x =
     (let d' = d @ [x] in if maxlen < length d' then tl d' else d')"

text \<open>
  \<^verbatim>\<open>collections.Counter(data)\<close>: an insertion-ordered dictionary from each element to its
  number of occurrences, built by one pass over the data.
\<close>

fun counter_incr :: "'a \<Rightarrow> ('a \<times> nat) list \<Rightarrow> ('a \<times> nat) list" where
  "counter_incr x [] = [(x, 1)]"
| "counter_incr x ((k, n) # kvs) =
     (if k = x then (k, Suc n) # kvs else (k, n) # counter_incr x kvs)"

definition Counter :: "'a list \<Rightarrow> ('a \<times> nat) list" where
  "Counter data = foldl (\<lambda>c x. counter_incr x c) [] data"

text \<open>
  Python's \<^verbatim>\<open>max(iterable, key=f)\<close> on a non-empty iterable: the running maximum is
  replaced only by a strictly greater item, so the first maximal item wins.
\<close>

fun max_by :: "('a \<Rightarrow> 'k::linorder) \<Rightarrow> 'a \<Rightarrow> 'a list \<Rightarrow> 'a" where
  "max_by key best [] = best"
| "max_by key best (x # xs) = max_by key (if key best < key x then x else best) xs"

text \<open>
  \<^verbatim>\<open>statistics.mode\<close> is library code and its behaviour on ties depends on the interpreter:
  from Python 3.8 on it returns the first of the most common values
  (\<^verbatim>\<open>Counter(iter(data)).most_common(1)\<close>); before 3.8 it raises \<^verbatim>\<open>StatisticsError\<close> unless
  exactly one value is most common. On empty data both raise. The repository does not fix
  the interpreter, so both are modelled and the tracker takes the version as a parameter.
\<close>

datatype py_version = Py38_or_later | Before_py38

definition mode_first :: "'a list \<Rightarrow> exn + 'a" where
  "mode_first data =
     (case Counter data of
        [] \<Rightarrow> Inl StatisticsError
      | kv # kvs \<Rightarrow> Inr (fst (max_by snd kv kvs)))"

text \<open>
  The helper \<^verbatim>\<open>_counts\<close> of the older \<^verbatim>\<open>statistics\<close> module: the entries of the counter
  whose count is the largest one.
\<close>

definition counts_table :: "'a list \<Rightarrow> ('a \<times> nat) list" where
  "counts_table data =
     (case Counter data of
        [] \<Rightarrow> []
      | kv # kvs \<Rightarrow>
          (let maxfreq = snd (max_by snd kv kvs)
           in filter (\<lambda>e. snd e = maxfreq) (kv # kvs)))"

definition mode_unique :: "'a list \<Rightarrow> exn + 'a" where
  "mode_unique data =
     (case counts_table data of
        [kv] \<Rightarrow> Inr (fst kv)
      | _ \<Rightarrow> Inl StatisticsError)"

fun statistics_mode :: "py_version \<Rightarrow> 'a list \<Rightarrow> exn + 'a" where
  "statistics_mode Py38_or_later data = mode_first data"
| "statistics_mode Before_py38 data = mode_unique data"

text \<open>
  \<^verbatim>\<open>str.lower\<close>, on the ASCII letters (the labels and the keys of \<^verbatim>\<open>EMOTION_MAP\<close> are ASCII).
\<close>

definition lower_char :: "char \<Rightarrow> char" where
  "lower_char c =
     (let n = (of_char c :: nat) in if 65 \<le> n \<and> n \<le> 90 then char_of (n + 32) else c)"

definition lower :: "string \<Rightarrow> string" where
  "lower s = map lower_char s"

text \<open>\<^verbatim>\<open>dict.get(key, default)\<close> on a dictionary written as an association list.\<close>

definition dict_get :: "('k \<times> 'v) list \<Rightarrow> 'k \<Rightarrow> 'v \<Rightarrow> 'v" where
  "dict_get d k dflt = (case map_of d k of None \<Rightarrow> dflt | Some v \<Rightarrow> v)"

text \<open>
  \<^verbatim>\<open>random.choice(seq)\<close> on a non-empty sequence; the draw of the generator is the
  argument \<open>r\<close>.
\<close>

definition random_choice :: "nat \<Rightarrow> 'a list \<Rightarrow> 'a" where
  "random_choice r seq = seq ! (r mod length seq)"

subsection \<open>The analyzer's fields\<close>

record analyzer =
  window :: "string list"
  running :: bool
  paused :: bool
  stable_emotion :: "string option"

text \<open>\<^verbatim>\<open>EmotionAnalyzer.__init__\<close>.\<close>

definition init :: analyzer where
  "init = \<lparr>window = [], running = True, paused = False, stable_emotion = None\<rparr>"

text \<open>
  The block of \<^verbatim>\<open>run\<close> executed under the lock once a prediction is there: append to the
  window, take the mode (an exception of \<^verbatim>\<open>statistics.mode\<close> leaves \<^verbatim>\<open>mode_val\<close> at
  \<^verbatim>\<open>None\<close>), and promote the mode when it is truthy and occurs at least
  \<^verbatim>\<open>STABLE_THRESHOLD\<close> times.
\<close>

definition record_label :: "py_version \<Rightarrow> string \<Rightarrow> analyzer \<Rightarrow> analyzer" where
  "record_label v pred a =
     (let w = deque_append ROLLING_WINDOW (window a) pred;
          a1 = a\<lparr>window := w\<rparr>;
          mode_val = (case statistics_mode v w of Inl e \<Rightarrow> None | Inr m \<Rightarrow> Some m)
      in case mode_val of
           None \<Rightarrow> a1
         | Some m \<Rightarrow>
             if truthy m then
               (let count_mode = length (filter (\<lambda>x. x = m) w)
                in if STABLE_THRESHOLD \<le> count_mode then a1\<lparr>stable_emotion := Some m\<rparr> else a1)
             else a1)"

definition get_stable :: "analyzer \<Rightarrow> string option" where
  "get_stable a = stable_emotion a"

definition pause :: "analyzer \<Rightarrow> analyzer" where
  "pause a = a\<lparr>paused := True\<rparr>"

definition resume :: "analyzer \<Rightarrow> analyzer" where
  "resume a = a\<lparr>paused := False, window := [], stable_emotion := None\<rparr>"

definition stop :: "analyzer \<Rightarrow> analyzer" where
  "stop a = a\<lparr>running := False\<rparr>"

subsection \<open>The per-frame prediction\<close>

text \<open>
  One entry of the result of \<^verbatim>\<open>DeepFace.analyze\<close>: the value under \<^verbatim>\<open>'dominant_emotion'\<close>
  (absent is \<open>None\<close>) and the dictionary under \<^verbatim>\<open>'emotion'\<close> (absent is the empty one),
  with scores of any totally ordered type.
\<close>

datatype 'v face = Face (dominant_emotion: "string option") (emotion: "(string \<times> 'v) list")

text \<open>
  What the \<^verbatim>\<open>try\<close> block meets on a frame: \<open>Raises\<close> is any exception raised inside
  the block (by \<^verbatim>\<open>cv2.cvtColor\<close>, by \<^verbatim>\<open>DeepFace.analyze\<close>, or by a later line on a
  malformed result); otherwise the analysis returns one dictionary or a list of dictionaries.
\<close>

datatype 'v analysis = Raises | ReturnsDict "'v face" | ReturnsList "'v face list"

text \<open>
  The lines after \<^verbatim>\<open>res\<close> is a dictionary: \<open>Some\<close> of the mapped label when a truthy
  dominant emotion is found, \<open>None\<close> when the \<^verbatim>\<open>try\<close> block ends without a \<^verbatim>\<open>return\<close>.
\<close>

definition dominant_label :: "('v::linorder) face \<Rightarrow> string option" where
  "dominant_label res =
     (let dom = (case dominant_emotion res of
                   None \<Rightarrow> None
                 | Some d \<Rightarrow> if truthy d then Some d else None);
          dom = (case dom of
                   Some d \<Rightarrow> Some d
                 | None \<Rightarrow>
                     (case emotion res of
                        [] \<Rightarrow> None
                      | kv # kvs \<Rightarrow> Some (fst (max_by snd kv kvs))))
      in case dom of
           None \<Rightarrow> None
         | Some d \<Rightarrow>
             if truthy d then Some (dict_get EMOTION_MAP (lower d) ''neutral'') else None)"

text \<open>The body of the \<^verbatim>\<open>try\<close> block; \<open>Inl\<close> is an exception raised inside it.\<close>

definition analyze_try :: "('v::linorder) analysis \<Rightarrow> exn + string option" where
  "analyze_try r =
     (case r of
        Raises \<Rightarrow> Inl ClassifierError
      | ReturnsDict res \<Rightarrow> Inr (dominant_label res)
      | ReturnsList [] \<Rightarrow> Inl IndexError
      | ReturnsList (res # rest) \<Rightarrow> Inr (dominant_label res))"

text \<open>\<^verbatim>\<open>_predict\<close>, with \<^verbatim>\<open>DEEPFACE_AVAILABLE\<close> as its first argument.\<close>

definition predict :: "bool \<Rightarrow> ('v::linorder) analysis \<Rightarrow> nat \<Rightarrow> string" where
  "predict deepface_available r rnd =
     (if deepface_available then
        (case analyze_try r of
           Inl e \<Rightarrow> random_choice rnd EMOJI_keys
         | Inr (Some mapped) \<Rightarrow> mapped
         | Inr None \<Rightarrow> random_choice rnd MOOD_TEXT_keys)
      else random_choice rnd MOOD_TEXT_keys)"

subsection \<open>The sampling loop\<close>

text \<open>
  What one pass of the loop reads from outside: whether \<^verbatim>\<open>get_frame()\<close> returned a frame,
  what the classifier does on it, and the draw of the random generator.
\<close>

datatype 'v tick = Tick (frame_ready: bool) (outcome: "'v analysis") (draw: nat)

text \<open>The interpreter version and the import-time flag \<^verbatim>\<open>DEEPFACE_AVAILABLE\<close>.\<close>

datatype host = Host (py: py_version) (DEEPFACE_AVAILABLE: bool)

text \<open>
  One pass through the body of \<^verbatim>\<open>while self.running\<close> during which no call of the user
  interface is made, and in which \<^verbatim>\<open>get_frame()\<close> returns.
\<close>

definition run_iteration :: "host \<Rightarrow> ('v::linorder) tick \<Rightarrow> analyzer \<Rightarrow> analyzer" where
  "run_iteration h t a =
     (if paused a then a
      else if \<not> frame_ready t then a
      else record_label (py h) (predict (DEEPFACE_AVAILABLE h) (outcome t) (draw t)) a)"

text \<open>
  A run of the application is a sequence of events: passes of the loop (taken only while
  \<^verbatim>\<open>running\<close> holds) and the calls of the user interface.
\<close>

datatype 'v event = Iteration "'v tick" | Pause | Resume | Stop

fun step :: "host \<Rightarrow> analyzer \<Rightarrow> ('v::linorder) event \<Rightarrow> analyzer" where
  "step h a (Iteration t) = (if running a then run_iteration h t a else a)"
| "step h a Pause = pause a"
| "step h a Resume = resume a"
| "step h a Stop = stop a"

definition exec :: "host \<Rightarrow> ('v::linorder) event list \<Rightarrow> analyzer \<Rightarrow> analyzer" where
  "exec h es a = foldl (step h) a es"

text \<open>A sequence of labels recorded one after the other.\<close>

definition records :: "py_version \<Rightarrow> string list \<Rightarrow> analyzer \<Rightarrow> analyzer" where
  "records v ls a = foldl (\<lambda>s l. record_label v l s) a ls"

text \<open>
  A pass of the loop on a frame for which the classifier reports the dominant emotion
  \<open>l\<close>; used to write concrete runs.
\<close>

definition sample :: "string \<Rightarrow> int event" where
  "sample l = Iteration (Tick True (ReturnsDict (Face (Some l) [])) 0)"

subsection \<open>The pass as the two threads see it\<close>

text \<open>
  \<^verbatim>\<open>run\<close> tests \<^verbatim>\<open>self.paused\<close> (line 144), reads the frame and predicts (lines 147 to 151)
  without holding the lock, and holds the lock only for lines 152 to 162. \<^verbatim>\<open>pause\<close>,
  \<^verbatim>\<open>resume\<close> and \<^verbatim>\<open>get_stable\<close> take the same lock: they cannot fall inside the locked
  block, but they can fall between the test and the block. \<open>pass_begin\<close> is the part before
  the lock: the prediction that the pass goes on to record, or \<open>None\<close> when the pass is
  skipped. \<open>pass_commit\<close> is the locked block, run on the state found when the lock is
  taken; it does not look at \<^verbatim>\<open>self.paused\<close> again.
\<close>

definition pass_begin :: "host \<Rightarrow> ('v::linorder) tick \<Rightarrow> analyzer \<Rightarrow> string option" where
  "pass_begin h t a =
     (if paused a then None
      else if \<not> frame_ready t then None
      else Some (predict (DEEPFACE_AVAILABLE h) (outcome t) (draw t)))"

definition pass_commit :: "py_version \<Rightarrow> string option \<Rightarrow> analyzer \<Rightarrow> analyzer" where
  "pass_commit v pending a =
     (case pending of None \<Rightarrow> a | Some pred \<Rightarrow> record_label v pred a)"

subsection \<open>The pass with its exceptions\<close>

text \<open>
  What can leave the body of the loop as an exception. \<^verbatim>\<open>self.get_frame()\<close> (line 147) is
  called outside any \<^verbatim>\<open>try\<close>, so an exception of the frame source leaves the loop. Inside
  \<^verbatim>\<open>_predict\<close> the handler is \<^verbatim>\<open>except Exception\<close>: it catches every error, and lets pass
  an exception that derives from \<^verbatim>\<open>BaseException\<close> only (\<^verbatim>\<open>KeyboardInterrupt\<close>,
  \<^verbatim>\<open>SystemExit\<close>).
\<close>

datatype escaped = FrameSourceRaised | NotAnException

text \<open>
  What the \<^verbatim>\<open>try\<close> block of \<^verbatim>\<open>_predict\<close> does on a frame: \<open>Outcome r\<close> when it returns or
  raises an error (an exception derived from \<^verbatim>\<open>Exception\<close>), as \<open>r\<close> says;
  \<open>NonErrorRaise\<close> when it raises an exception that is not derived from \<^verbatim>\<open>Exception\<close>.
\<close>

datatype 'v try_run = NonErrorRaise | Outcome "'v analysis"

text \<open>
  What \<^verbatim>\<open>self.get_frame()\<close> does: raise, return \<^verbatim>\<open>None\<close>, or return a frame, on which the
  \<^verbatim>\<open>try\<close> block then does as given.
\<close>

datatype 'v frame_read = ReadRaises | ReadNone | ReadFrame "'v try_run"

text \<open>\<^verbatim>\<open>_predict\<close> with the exception that its handler does not catch.\<close>

definition predict_exc :: "bool \<Rightarrow> ('v::linorder) try_run \<Rightarrow> nat \<Rightarrow> escaped + string" where
  "predict_exc deepface_available t rnd =
     (case t of
        NonErrorRaise \<Rightarrow>
          if deepface_available then Inl NotAnException
          else Inr (random_choice rnd MOOD_TEXT_keys)
      | Outcome r \<Rightarrow> Inr (predict deepface_available r rnd))"

text \<open>
  One pass through the body of the loop, with the exceptions that leave it: \<open>Inl\<close> is an
  exception that ends the thread, \<open>Inr\<close> the state in which the pass ends.
\<close>

definition run_pass :: "host \<Rightarrow> ('v::linorder) frame_read \<Rightarrow> nat \<Rightarrow> analyzer \<Rightarrow> escaped + analyzer" where
  "run_pass h f rnd a =
     (if paused a then Inr a
      else case f of
        ReadRaises \<Rightarrow> Inl FrameSourceRaised
      | ReadNone \<Rightarrow> Inr a
      | ReadFrame t \<Rightarrow>
          (case predict_exc (DEEPFACE_AVAILABLE h) t rnd of
             Inl x \<Rightarrow> Inl x
           | Inr pred \<Rightarrow> Inr (record_label (py h) pred a)))"

section \<open>Library and helper lemmas\<close>

lemma max_by_mem: "max_by key b xs \<in> set (b # xs)"
  by (induction xs arbitrary: b) auto

lemma max_by_ge_best: "key b \<le> key (max_by key b xs)"
proof (induction xs arbitrary: b)
  case Nil
  show ?case by simp
next
  case (Cons x xs)
  have "key b \<le> key (if key b < key x then x else b)" by (simp add: less_imp_le)
  also have "\<dots> \<le> key (max_by key (if key b < key x then x else b) xs)"
    by (rule Cons.IH)
  finally show ?case by simp
qed

lemma max_by_ge: "y \<in> set (b # xs) \<Longrightarrow> key y \<le> key (max_by key b xs)"
proof (induction xs arbitrary: b)
  case Nil
  then show ?case by simp
next
  case (Cons x xs)
  let ?b = "if key b < key x then x else b"
  from Cons.prems consider "y = b" | "y = x" | "y \<in> set xs" by auto
  then show ?case
  proof cases
    case 1
    have "key y \<le> key ?b" using 1 by (simp add: less_imp_le)
    also have "\<dots> \<le> key (max_by key ?b xs)" by (rule max_by_ge_best)
    finally show ?thesis by simp
  next
    case 2
    have "key y \<le> key ?b" using 2 by (simp add: not_less)
    also have "\<dots> \<le> key (max_by key ?b xs)" by (rule max_by_ge_best)
    finally show ?thesis by simp
  next
    case 3
    then have "key y \<le> key (max_by key ?b xs)" by (intro Cons.IH) simp
    then show ?thesis by simp
  qed
qed

lemma counter_incr_keys: "fst ` set (counter_incr x c) = insert x (fst ` set c)"
  by (induction x c rule: counter_incr.induct) auto

lemma counter_incr_distinct:
  "distinct (map fst c) \<Longrightarrow> distinct (map fst (counter_incr x c))"
proof (induction x c rule: counter_incr.induct)
  case (1 x)
  show ?case by simp
next
  case (2 x k n kvs)
  show ?case
  proof (cases "k = x")
    case True
    with 2 show ?thesis by simp
  next
    case False
    have "k \<notin> fst ` set (counter_incr x kvs)"
      using False "2.prems" by (simp add: counter_incr_keys)
    with False 2 show ?thesis by simp
  qed
qed

lemma counter_incr_map_of:
  "map_of (counter_incr x c) k =
     (if k = x then Some (case map_of c x of None \<Rightarrow> 1 | Some n \<Rightarrow> Suc n) else map_of c k)"
  by (induction x c rule: counter_incr.induct) auto

lemma Counter_snoc: "Counter (xs @ [x]) = counter_incr x (Counter xs)"
  by (simp add: Counter_def)

lemma Counter_distinct: "distinct (map fst (Counter xs))"
proof (induction xs rule: rev_induct)
  case Nil
  show ?case by (simp add: Counter_def)
next
  case (snoc x xs)
  then show ?case by (simp add: Counter_snoc counter_incr_distinct)
qed

lemma Counter_map_of:
  "map_of (Counter xs) k = (if k \<in> set xs then Some (count_list xs k) else None)"
proof (induction xs arbitrary: k rule: rev_induct)
  case Nil
  show ?case by (simp add: Counter_def)
next
  case (snoc x xs)
  show ?case by (simp add: Counter_snoc counter_incr_map_of snoc.IH)
qed

lemma Counter_entry:
  "(k, n) \<in> set (Counter xs) \<longleftrightarrow> k \<in> set xs \<and> n = count_list xs k"
proof -
  have "(k, n) \<in> set (Counter xs) \<longleftrightarrow> map_of (Counter xs) k = Some n"
    using Counter_distinct [of xs] by simp
  then show ?thesis by (auto simp: Counter_map_of)
qed

lemma Counter_Nil_iff: "Counter xs = [] \<longleftrightarrow> xs = []"
proof
  assume "Counter xs = []"
  then have "\<forall>k. map_of (Counter xs) k = None" by simp
  then have "\<forall>k. k \<notin> set xs" by (simp add: Counter_map_of split: if_splits)
  then show "xs = []" by (cases xs) auto
next
  assume "xs = []"
  then show "Counter xs = []" by (simp add: Counter_def)
qed

lemma count_filter_eq: "length (filter (\<lambda>x. x = m) w) = count_list w m"
  by (induction w) auto

lemma mode_first_Inr:
  assumes "mode_first xs = Inr m"
  shows "m \<in> set xs \<and> (\<forall>y. count_list xs y \<le> count_list xs m)"
proof -
  from assms obtain kv kvs where c: "Counter xs = kv # kvs"
    and m: "m = fst (max_by snd kv kvs)"
    by (auto simp: mode_first_def split: list.splits)
  define e where "e = max_by snd kv kvs"
  have "e \<in> set (Counter xs)" unfolding e_def c by (rule max_by_mem)
  then have e: "fst e \<in> set xs" "snd e = count_list xs (fst e)"
    using Counter_entry [of "fst e" "snd e" xs] by simp_all
  have "count_list xs y \<le> count_list xs m" for y
  proof (cases "y \<in> set xs")
    case True
    then have "(y, count_list xs y) \<in> set (kv # kvs)"
      using Counter_entry [of y "count_list xs y" xs] c by simp
    then have "snd (y, count_list xs y) \<le> snd e"
      unfolding e_def by (rule max_by_ge)
    then show ?thesis using e m e_def by simp
  next
    case False
    then show ?thesis by (simp add: count_list_0_iff)
  qed
  then show ?thesis using e m e_def by simp
qed

lemma mode_unique_Inr:
  assumes "mode_unique xs = Inr m"
  shows "m \<in> set xs \<and> (\<forall>y. y \<noteq> m \<longrightarrow> count_list xs y < count_list xs m)"
proof -
  from assms obtain n where t: "counts_table xs = [(m, n)]"
    by (auto simp: mode_unique_def split: list.splits)
  then obtain kv kvs where c: "Counter xs = kv # kvs"
    and f: "filter (\<lambda>e. snd e = snd (max_by snd kv kvs)) (kv # kvs) = [(m, n)]"
    by (auto simp: counts_table_def Let_def split: list.splits)
  define mx where "mx = snd (max_by snd kv kvs)"
  have "set (filter (\<lambda>e. snd e = mx) (kv # kvs)) = set [(m, n)]"
    using f unfolding mx_def by (rule arg_cong)
  then have S: "{e \<in> set (Counter xs). snd e = mx} = {(m, n)}"
    unfolding c by (simp only: set_filter list.set)
  then have both: "(m, n) \<in> {e \<in> set (Counter xs). snd e = mx}" by simp
  have mn: "(m, n) \<in> set (Counter xs)" using both by blast
  have nmx: "n = mx" using both by auto
  have m: "m \<in> set xs" "mx = count_list xs m"
    using mn nmx Counter_entry [of m n xs] by simp_all
  have "count_list xs y < count_list xs m" if "y \<noteq> m" for y
  proof (cases "y \<in> set xs")
    case True
    then have in_c: "(y, count_list xs y) \<in> set (kv # kvs)"
      using Counter_entry [of y "count_list xs y" xs] c by simp
    then have le: "snd (y, count_list xs y) \<le> mx"
      unfolding mx_def by (rule max_by_ge)
    have "count_list xs y \<noteq> mx"
    proof
      assume "count_list xs y = mx"
      with in_c have "(y, count_list xs y) \<in> {e \<in> set (Counter xs). snd e = mx}"
        unfolding c by simp
      then have "(y, count_list xs y) \<in> {(m, n)}" by (simp only: S)
      with that show False by simp
    qed
    with le m show ?thesis by simp
  next
    case False
    then have "count_list xs y = 0" by (simp add: count_list_0_iff)
    moreover have "count_list xs m \<noteq> 0" using m(1) by (simp add: count_list_0_iff)
    ultimately show ?thesis by simp
  qed
  with m show ?thesis by simp
qed

lemma statistics_mode_Inr:
  "statistics_mode v xs = Inr m \<Longrightarrow>
     m \<in> set xs \<and> (\<forall>y. count_list xs y \<le> count_list xs m)"
proof (cases v)
  case Py38_or_later
  assume "statistics_mode v xs = Inr m"
  with Py38_or_later show ?thesis using mode_first_Inr [of xs m] by simp
next
  case Before_py38
  assume "statistics_mode v xs = Inr m"
  with Before_py38 have "m \<in> set xs \<and> (\<forall>y. y \<noteq> m \<longrightarrow> count_list xs y < count_list xs m)"
    using mode_unique_Inr [of xs m] by simp
  then show ?thesis by (metis less_imp_le order_refl)
qed

lemma distinct_set_single: "distinct l \<Longrightarrow> set l = {a} \<Longrightarrow> l = [a]"
proof -
  assume d: "distinct l" and s: "set l = {a}"
  have "length l = card (set l)" using d by (simp add: distinct_card)
  then have "length l = 1" using s by simp
  then obtain b where "l = [b]" by (cases l) auto
  with s show ?thesis by simp
qed

lemma mode_first_strict:
  assumes "m \<in> set xs" and "\<forall>y. y \<noteq> m \<longrightarrow> count_list xs y < count_list xs m"
  shows "mode_first xs = Inr m"
proof -
  have "Counter xs \<noteq> []" using assms(1) by (auto simp: Counter_Nil_iff)
  then obtain kv kvs where c: "Counter xs = kv # kvs" by (cases "Counter xs") auto
  define e where "e = max_by snd kv kvs"
  have "e \<in> set (Counter xs)" unfolding e_def c by (rule max_by_mem)
  then have e: "fst e \<in> set xs" "snd e = count_list xs (fst e)"
    using Counter_entry [of "fst e" "snd e" xs] by simp_all
  have "(m, count_list xs m) \<in> set (kv # kvs)"
    using Counter_entry [of m "count_list xs m" xs] c assms(1) by simp
  then have "snd (m, count_list xs m) \<le> snd e" unfolding e_def by (rule max_by_ge)
  then have "count_list xs m \<le> count_list xs (fst e)" using e by simp
  then have "fst e = m" using assms(2) by (metis not_less)
  then show ?thesis by (simp add: mode_first_def c e_def)
qed

lemma mode_unique_strict:
  assumes "m \<in> set xs" and "\<forall>y. y \<noteq> m \<longrightarrow> count_list xs y < count_list xs m"
  shows "mode_unique xs = Inr m"
proof -
  have "Counter xs \<noteq> []" using assms(1) by (auto simp: Counter_Nil_iff)
  then obtain kv kvs where c: "Counter xs = kv # kvs" by (cases "Counter xs") auto
  define e where "e = max_by snd kv kvs"
  have "e \<in> set (Counter xs)" unfolding e_def c by (rule max_by_mem)
  then have e: "fst e \<in> set xs" "snd e = count_list xs (fst e)"
    using Counter_entry [of "fst e" "snd e" xs] by simp_all
  have min_c: "(m, count_list xs m) \<in> set (Counter xs)"
    using Counter_entry [of m "count_list xs m" xs] assms(1) by simp
  then have "snd (m, count_list xs m) \<le> snd e" unfolding e_def c by (rule max_by_ge)
  then have "count_list xs m \<le> count_list xs (fst e)" using e by simp
  then have "fst e = m" using assms(2) by (metis not_less)
  then have mx: "snd e = count_list xs m" using e by simp
  let ?t = "filter (\<lambda>p. snd p = snd e) (Counter xs)"
  have "distinct (Counter xs)" using Counter_distinct [of xs] by (rule distinct_map [THEN iffD1, THEN conjunct1])
  then have d: "distinct ?t" by simp
  have "set ?t = {(m, count_list xs m)}"
  proof (rule set_eqI)
    fix p :: "'a \<times> nat"
    obtain k n where p: "p = (k, n)" by (cases p)
    show "p \<in> set ?t \<longleftrightarrow> p \<in> {(m, count_list xs m)}"
    proof
      assume "p \<in> set ?t"
      then have pc: "p \<in> set (Counter xs)" and ps: "snd p = snd e"
        by auto
      have n: "n = count_list xs m" using ps p mx by simp
      have "(k, n) \<in> set (Counter xs)" using pc p by simp
      then have kn: "k \<in> set xs \<and> n = count_list xs k"
        by (simp only: Counter_entry)
      have "k = m" using n kn assms(2) by (metis less_irrefl)
      with n p show "p \<in> {(m, count_list xs m)}" by simp
    next
      assume "p \<in> {(m, count_list xs m)}"
      then show "p \<in> set ?t" using min_c mx by simp
    qed
  qed
  with d have "?t = [(m, count_list xs m)]" by (rule distinct_set_single)
  then have "counts_table xs = [(m, count_list xs m)]"
    by (simp add: counts_table_def c e_def)
  then show ?thesis by (simp add: mode_unique_def)
qed

lemma statistics_mode_strict:
  "m \<in> set xs \<Longrightarrow> \<forall>y. y \<noteq> m \<longrightarrow> count_list xs y < count_list xs m \<Longrightarrow>
     statistics_mode v xs = Inr m"
  by (cases v) (simp_all add: mode_first_strict mode_unique_strict)

lemma record_label_window:
  "window (record_label v l a) = deque_append ROLLING_WINDOW (window a) l"
  by (simp add: record_label_def Let_def split: sum.splits)

lemma record_label_flags:
  "paused (record_label v l a) = paused a \<and> running (record_label v l a) = running a"
  by (simp add: record_label_def Let_def split: sum.splits)

lemma record_label_stable:
  "stable_emotion (record_label v l a) =
     (case statistics_mode v (deque_append ROLLING_WINDOW (window a) l) of
        Inl e \<Rightarrow> stable_emotion a
      | Inr m \<Rightarrow>
          if m \<noteq> [] \<and> STABLE_THRESHOLD \<le> count_list (deque_append ROLLING_WINDOW (window a) l) m
          then Some m else stable_emotion a)"
  by (simp add: record_label_def Let_def truthy_def count_filter_eq split: sum.splits)

lemma deque_append_length: "length d \<le> n \<Longrightarrow> length (deque_append n d x) \<le> n"
  by (auto simp: deque_append_def Let_def)

lemma deque_append_set: "set (deque_append n d x) \<subseteq> insert x (set d)"
proof (cases d)
  case Nil
  then show ?thesis by (simp add: deque_append_def Let_def)
next
  case (Cons y ys)
  then show ?thesis by (auto simp: deque_append_def Let_def)
qed

lemma deque_append_evict:
  "0 < n \<Longrightarrow> length d \<le> n \<Longrightarrow>
     deque_append n d x = (if length d = n then tl d @ [x] else d @ [x])"
  by (cases d) (auto simp: deque_append_def Let_def)

lemma exec_snoc: "exec h (es @ [e]) a = step h (exec h es a) e"
  by (simp add: exec_def)

lemma records_snoc: "records v (ls @ [l]) a = record_label v l (records v ls a)"
  by (simp add: records_def)

lemma step_length:
  "length (window a) \<le> ROLLING_WINDOW \<Longrightarrow> length (window (step h a e)) \<le> ROLLING_WINDOW"
  by (cases e)
     (simp_all add: run_iteration_def record_label_window deque_append_length
        pause_def resume_def stop_def)

lemma step_stable_origin:
  assumes "stable_emotion (step h a e) = Some m"
  shows "(stable_emotion a = Some m \<and> e \<noteq> Resume)
       \<or> (statistics_mode (py h) (window (step h a e)) = Inr m
          \<and> STABLE_THRESHOLD \<le> count_list (window (step h a e)) m)"
proof (cases e)
  case (Iteration t)
  show ?thesis
  proof (cases "running a \<and> \<not> paused a \<and> frame_ready t")
    case True
    define l where "l = predict (DEEPFACE_AVAILABLE h) (outcome t) (draw t)"
    have s: "step h a e = record_label (py h) l a"
      using True Iteration by (simp add: run_iteration_def l_def)
    show ?thesis
      using assms Iteration unfolding s record_label_window record_label_stable
      by (auto split: sum.splits if_splits)
  next
    case False
    then have "step h a e = a" using Iteration by (auto simp: run_iteration_def)
    with assms Iteration show ?thesis by simp
  qed
next
  case Pause
  with assms show ?thesis by (simp add: pause_def)
next
  case Resume
  with assms show ?thesis by (simp add: resume_def)
next
  case Stop
  with assms show ?thesis by (simp add: stop_def)
qed

lemma records_window_suffix:
  "length span \<le> ROLLING_WINDOW \<Longrightarrow> \<exists>ys. window (records v (pre @ span) a) = ys @ span"
proof (induction span rule: rev_induct)
  case Nil
  show ?case by simp
next
  case (snoc x span)
  then have len: "length span < ROLLING_WINDOW" by simp
  with snoc.IH obtain ys where ys: "window (records v (pre @ span) a) = ys @ span" by auto
  have w: "window (records v (pre @ span @ [x]) a) = deque_append ROLLING_WINDOW (ys @ span) x"
    using records_snoc [of v "pre @ span" x a] by (simp add: record_label_window ys)
  show ?case
  proof (cases ys)
    case Nil
    with len have "deque_append ROLLING_WINDOW (ys @ span) x = [] @ span @ [x]"
      by (simp add: deque_append_def Let_def)
    with w show ?thesis by metis
  next
    case (Cons y ys')
    then have "deque_append ROLLING_WINDOW (ys @ span) x = ys' @ span @ [x]
             \<or> deque_append ROLLING_WINDOW (ys @ span) x = ys @ span @ [x]"
      by (simp add: deque_append_def Let_def)
    with w show ?thesis by metis
  qed
qed

lemmas eval_defs = record_label_def deque_append_def ROLLING_WINDOW_def STABLE_THRESHOLD_def
  truthy_def Counter_def mode_first_def mode_unique_def counts_table_def records_def init_def
  get_stable_def pause_def resume_def

lemma random_choice_mem: "seq \<noteq> [] \<Longrightarrow> random_choice r seq \<in> set seq"
  by (simp add: random_choice_def)

lemma EMOTION_MAP_get_label: "dict_get EMOTION_MAP k ''neutral'' \<in> set EMOJI_keys"
  by (simp add: dict_get_def EMOTION_MAP_def EMOJI_keys_def)

lemma MOOD_TEXT_keys_eq: "MOOD_TEXT_keys = EMOJI_keys"
  by (simp add: MOOD_TEXT_keys_def EMOJI_keys_def)

lemma dominant_label_mem: "dominant_label res = Some l \<Longrightarrow> l \<in> set EMOJI_keys"
  by (auto simp: dominant_label_def Let_def EMOTION_MAP_get_label
        split: option.splits if_splits list.splits)

lemma analyze_try_mem: "analyze_try r = Inr (Some l) \<Longrightarrow> l \<in> set EMOJI_keys"
  by (auto simp: analyze_try_def dest: dominant_label_mem split: analysis.splits list.splits)

lemma predict_mem: "predict d r c \<in> set EMOJI_keys"
proof -
  have ne: "EMOJI_keys \<noteq> []" by (simp add: EMOJI_keys_def)
  have rc: "random_choice c EMOJI_keys \<in> set EMOJI_keys"
    using ne by (rule random_choice_mem)
  show ?thesis
  proof (cases "d")
    case False
    then show ?thesis using rc by (simp add: predict_def MOOD_TEXT_keys_eq)
  next
    case True
    show ?thesis
    proof (cases "analyze_try r")
      case (Inl e)
      with True rc show ?thesis by (simp add: predict_def)
    next
      case (Inr ol)
      show ?thesis
      proof (cases ol)
        case None
        with True Inr rc show ?thesis by (simp add: predict_def MOOD_TEXT_keys_eq)
      next
        case (Some l)
        with Inr have "l \<in> set EMOJI_keys" by (simp add: analyze_try_mem)
        with True Inr Some show ?thesis by (simp add: predict_def)
      qed
    qed
  qed
qed

lemma exec_Cons: "exec h (e # es) a = exec h es (step h a e)"
  by (simp add: exec_def)

lemma records_Cons: "records v (l # ls) a = records v ls (record_label v l a)"
  by (simp add: records_def)

lemma predict_sample:
  "l \<in> set EMOJI_keys \<Longrightarrow> predict True (ReturnsDict (Face (Some l) ([]::(string \<times> int) list))) d = l"
  by (auto simp: EMOJI_keys_def; code_simp)

lemma step_sample:
  "running a \<Longrightarrow> \<not> paused a \<Longrightarrow> l \<in> set EMOJI_keys \<Longrightarrow>
     step (Host v True) a (sample l) = record_label v l a"
  by (simp add: sample_def run_iteration_def predict_sample)

lemma exec_samples:
  "running a \<Longrightarrow> \<not> paused a \<Longrightarrow> set ls \<subseteq> set EMOJI_keys \<Longrightarrow>
     exec (Host v True) (map sample ls) a = records v ls a"
proof (induction ls arbitrary: a)
  case Nil
  show ?case by (simp add: exec_def records_def)
next
  case (Cons l ls)
  have s: "step (Host v True) a (sample l) = record_label v l a"
    using Cons.prems by (simp add: step_sample)
  have "exec (Host v True) (map sample ls) (record_label v l a) = records v ls (record_label v l a)"
    using Cons.prems by (intro Cons.IH) (simp_all add: record_label_flags)
  then show ?case by (simp add: exec_Cons records_Cons s)
qed

lemma paused_step: "paused a \<Longrightarrow> step h a (Iteration t) = a"
  by (simp add: run_iteration_def)

lemma paused_exec: "paused a \<Longrightarrow> exec h (map Iteration ts) a = a"
proof (induction ts)
  case Nil
  show ?case by (simp add: exec_def)
next
  case (Cons t ts)
  have "exec h (map Iteration (t # ts)) a = exec h (map Iteration ts) (step h a (Iteration t))"
    by (simp only: list.map exec_Cons)
  also have "\<dots> = exec h (map Iteration ts) a"
    by (simp only: paused_step [OF Cons.prems])
  also have "\<dots> = a" using Cons.prems by (rule Cons.IH)
  finally show ?case .
qed

lemma record_label_labels:
  assumes "l \<in> set EMOJI_keys" and "set (window a) \<subseteq> set EMOJI_keys"
    and "\<forall>m. stable_emotion a = Some m \<longrightarrow> m \<in> set EMOJI_keys"
  shows "set (window (record_label v l a)) \<subseteq> set EMOJI_keys
       \<and> (\<forall>m. stable_emotion (record_label v l a) = Some m \<longrightarrow> m \<in> set EMOJI_keys)"
proof -
  define w where "w = deque_append ROLLING_WINDOW (window a) l"
  have "set w \<subseteq> insert l (set (window a))" unfolding w_def by (rule deque_append_set)
  with assms(1,2) have w: "set w \<subseteq> set EMOJI_keys" by auto
  have "m \<in> set EMOJI_keys" if "stable_emotion (record_label v l a) = Some m" for m
  proof (cases "stable_emotion a = Some m")
    case True
    with assms(3) show ?thesis by simp
  next
    case False
    with that have "statistics_mode v w = Inr m"
      unfolding record_label_stable w_def by (auto split: sum.splits if_splits)
    then have "m \<in> set w" using statistics_mode_Inr by fastforce
    with w show ?thesis by auto
  qed
  with w show ?thesis by (simp add: record_label_window w_def)
qed

lemma step_labels:
  assumes "set (window a) \<subseteq> set EMOJI_keys"
    and "\<forall>m. stable_emotion a = Some m \<longrightarrow> m \<in> set EMOJI_keys"
  shows "set (window (step h a e)) \<subseteq> set EMOJI_keys
       \<and> (\<forall>m. stable_emotion (step h a e) = Some m \<longrightarrow> m \<in> set EMOJI_keys)"
proof (cases e)
  case (Iteration t)
  show ?thesis
  proof (cases "running a \<and> \<not> paused a \<and> frame_ready t")
    case True
    then have "step h a e
        = record_label (py h) (predict (DEEPFACE_AVAILABLE h) (outcome t) (draw t)) a"
      using Iteration by (simp add: run_iteration_def)
    then show ?thesis using record_label_labels [OF predict_mem assms] by simp
  next
    case False
    then have "step h a e = a" using Iteration by (auto simp: run_iteration_def)
    with assms show ?thesis by simp
  qed
next
  case Pause
  with assms show ?thesis by (simp add: pause_def)
next
  case Resume
  then show ?thesis by (simp add: resume_def)
next
  case Stop
  with assms show ?thesis by (simp add: stop_def)
qed

lemma exec_labels:
  "set (window (exec h es init)) \<subseteq> set EMOJI_keys
     \<and> (\<forall>m. stable_emotion (exec h es init) = Some m \<longrightarrow> m \<in> set EMOJI_keys)"
proof (induction es rule: rev_induct)
  case Nil
  show ?case by (simp add: exec_def init_def)
next
  case (snoc e es)
  then show ?case unfolding exec_snoc by (intro step_labels) simp_all
qed

lemma run_iteration_split: "run_iteration h t a = pass_commit (py h) (pass_begin h t a) a"
  by (simp add: run_iteration_def pass_begin_def pass_commit_def)

lemma pass_commit_length:
  "length (window a) \<le> ROLLING_WINDOW \<Longrightarrow> length (window (pass_commit v p a)) \<le> ROLLING_WINDOW"
  by (cases p) (simp_all add: pass_commit_def record_label_window deque_append_length)

lemma run_pass_iteration:
  "run_pass h (ReadFrame (Outcome r)) d a = Inr (run_iteration h (Tick True r d) a)
   \<and> run_pass h ReadNone d a = Inr (run_iteration h (Tick False r d) a)"
  by (simp add: run_pass_def predict_exc_def run_iteration_def)

lemma run_pass_escapes:
  "\<not> paused a \<Longrightarrow> run_pass h ReadRaises d a = Inl FrameSourceRaised"
  "\<not> paused a \<Longrightarrow> DEEPFACE_AVAILABLE h \<Longrightarrow>
     run_pass h (ReadFrame NonErrorRaise) d a = Inl NotAnException"
  by (simp_all add: run_pass_def predict_exc_def)


lemma passes_begun_after_pause:
  "paused (pause a) \<and> window (pause a) = window a
   \<and> stable_emotion (pause a) = stable_emotion a
   \<and> pass_begin h t (pause a) = None
   \<and> window (exec h (map Iteration ts) (pause a)) = window a
   \<and> stable_emotion (exec h (map Iteration ts) (pause a)) = stable_emotion a"
proof -
  have "paused (pause a)" by (simp add: pause_def)
  then have "exec h (map Iteration ts) (pause a) = pause a" by (rule paused_exec)
  then show ?thesis by (simp add: pause_def pass_begin_def)
qed

section \<open>Properties of the analyzer\<close>

text \<open>
  Claim C1. For every record of a label while the tracker is running (labels are non-empty
  strings, as all seven are): the label is appended to the window, the oldest entry being
  evicted when the window is at capacity; the mode of the window is recomputed; if the
  mode occurs at least \<open>STABLE_THRESHOLD\<close> times the stable verdict is set to it,
  otherwise the verdict is left as it was. In particular a verdict never reverts to
  \<open>None\<close>, and it changes only to a label that is a mode of the window and has reached
  the threshold.
\<close>

theorem record_label_spec:
  assumes "length (window a) \<le> ROLLING_WINDOW" and "pred \<noteq> []" and "[] \<notin> set (window a)"
  shows "let a' = record_label v pred a; w' = window a' in
           w' = (if length (window a) = ROLLING_WINDOW then tl (window a) @ [pred]
                 else window a @ [pred])
         \<and> paused a' = paused a \<and> running a' = running a
         \<and> (\<forall>m. statistics_mode v w' = Inr m \<and> STABLE_THRESHOLD \<le> count_list w' m
                \<longrightarrow> stable_emotion a' = Some m)
         \<and> ((\<nexists>m. statistics_mode v w' = Inr m \<and> STABLE_THRESHOLD \<le> count_list w' m)
                \<longrightarrow> stable_emotion a' = stable_emotion a)
         \<and> (stable_emotion a \<noteq> None \<longrightarrow> stable_emotion a' \<noteq> None)
         \<and> (stable_emotion a' \<noteq> stable_emotion a \<longrightarrow>
               (\<exists>m. stable_emotion a' = Some m \<and> STABLE_THRESHOLD \<le> count_list w' m
                  \<and> (\<forall>y. count_list w' y \<le> count_list w' m)))"
proof -
  define w where "w = deque_append ROLLING_WINDOW (window a) pred"
  have win: "window (record_label v pred a) = w"
    by (simp add: w_def record_label_window)
  have evict: "w = (if length (window a) = ROLLING_WINDOW then tl (window a) @ [pred]
                    else window a @ [pred])"
    unfolding w_def using assms(1) by (intro deque_append_evict) (simp_all add: ROLLING_WINDOW_def)
  have nonempty: "m \<noteq> []" if "m \<in> set w" for m
  proof -
    have "set w \<subseteq> insert pred (set (window a))"
      unfolding w_def by (rule deque_append_set)
    with that assms(2,3) show ?thesis by auto
  qed
  have st: "stable_emotion (record_label v pred a) =
      (case statistics_mode v w of
         Inl e \<Rightarrow> stable_emotion a
       | Inr m \<Rightarrow> if m \<noteq> [] \<and> STABLE_THRESHOLD \<le> count_list w m then Some m
                  else stable_emotion a)"
    unfolding w_def by (rule record_label_stable)
  have promote: "stable_emotion (record_label v pred a) = Some m"
    if "statistics_mode v w = Inr m" "STABLE_THRESHOLD \<le> count_list w m" for m
  proof -
    have "m \<in> set w" using statistics_mode_Inr [OF that(1)] by simp
    then have "m \<noteq> []" by (rule nonempty)
    with that show ?thesis by (simp add: st)
  qed
  have keep: "stable_emotion (record_label v pred a) = stable_emotion a"
    if "\<nexists>m. statistics_mode v w = Inr m \<and> STABLE_THRESHOLD \<le> count_list w m"
    using that by (auto simp: st split: sum.splits)
  have sticky: "stable_emotion (record_label v pred a) \<noteq> None"
    if "stable_emotion a \<noteq> None"
    using that by (auto simp: st split: sum.splits)
  have change: "\<exists>m. stable_emotion (record_label v pred a) = Some m
        \<and> STABLE_THRESHOLD \<le> count_list w m \<and> (\<forall>y. count_list w y \<le> count_list w m)"
    if "stable_emotion (record_label v pred a) \<noteq> stable_emotion a"
  proof (cases "statistics_mode v w")
    case (Inl e)
    with that show ?thesis by (simp add: st)
  next
    case (Inr m)
    with that have "stable_emotion (record_label v pred a) = Some m"
      and "STABLE_THRESHOLD \<le> count_list w m"
      by (auto simp: st split: if_splits)
    moreover have "\<forall>y. count_list w y \<le> count_list w m"
      using statistics_mode_Inr [OF Inr] by simp
    ultimately show ?thesis by blast
  qed
  show ?thesis
    unfolding Let_def win
    using evict record_label_flags [of v pred a] promote keep sticky change
    by blast
qed

text \<open>
  The statement above at a concrete state: a third \<open>happy\<close> in a row is appended and
  promoted.
\<close>

theorem record_label_spec_witness:
  "length (window \<lparr>window = [''happy'', ''happy''], running = True, paused = False,
        stable_emotion = None\<rparr>) \<le> ROLLING_WINDOW
   \<and> ''happy'' \<noteq> []
   \<and> [] \<notin> set (window \<lparr>window = [''happy'', ''happy''], running = True, paused = False,
        stable_emotion = None\<rparr>)
   \<and> window (record_label Py38_or_later ''happy''
        \<lparr>window = [''happy'', ''happy''], running = True, paused = False,
          stable_emotion = None\<rparr>) = [''happy'', ''happy'', ''happy'']
   \<and> stable_emotion (record_label Py38_or_later ''happy''
        \<lparr>window = [''happy'', ''happy''], running = True, paused = False,
          stable_emotion = None\<rparr>) = Some ''happy''"
proof -
  define a0 where "a0 = \<lparr>window = [''happy'', ''happy''], running = True, paused = False,
        stable_emotion = None\<rparr>"
  define a' where "a' = record_label Py38_or_later ''happy'' a0"
  have h1: "length (window a0) \<le> ROLLING_WINDOW" by (simp add: a0_def ROLLING_WINDOW_def)
  have h2: "''happy'' \<noteq> []" by simp
  have h3: "[] \<notin> set (window a0)" by (simp add: a0_def)
  note T = record_label_spec [OF h1 h2 h3, of Py38_or_later, unfolded Let_def, folded a'_def]
  from T have W: "window a' = [''happy'', ''happy'', ''happy'']"
    by (simp add: a0_def ROLLING_WINDOW_def)
  from T have P: "statistics_mode Py38_or_later (window a') = Inr ''happy''
      \<and> STABLE_THRESHOLD \<le> count_list (window a') ''happy''
      \<longrightarrow> stable_emotion a' = Some ''happy''"
    by blast
  have M: "statistics_mode Py38_or_later [''happy'', ''happy'', ''happy''] = Inr ''happy''
      \<and> STABLE_THRESHOLD \<le> count_list [''happy'', ''happy'', ''happy''] ''happy''"
    by (simp add: eval_defs)
  from P M have "stable_emotion a' = Some ''happy''" unfolding W by blast
  with h1 h2 h3 W show ?thesis unfolding a'_def a0_def by blast
qed

text \<open>
  Claim C2. After every sequence of loop passes, with any interleaving of \<^verbatim>\<open>pause\<close>,
  \<^verbatim>\<open>resume\<close> and \<^verbatim>\<open>stop\<close>, the window holds at most \<open>ROLLING_WINDOW\<close> labels. Every
  prefix of a run is a run, so the bound holds at every point.
\<close>

theorem window_bounded: "length (window (exec h es init)) \<le> ROLLING_WINDOW"
proof (induction es rule: rev_induct)
  case Nil
  show ?case by (simp add: exec_def init_def)
next
  case (snoc e es)
  then show ?case by (simp only: exec_snoc step_length)
qed

text \<open>
  Claim C3, as amended. In every reachable state the stable verdict is \<open>Some m\<close> only if,
  at some earlier point of the run with no \<^verbatim>\<open>resume\<close> since, \<open>m\<close> was the mode of the
  window and occurred in it at least \<open>STABLE_THRESHOLD\<close> times. The verdict is kept
  afterwards, so the current window need not support it any more.
\<close>

theorem stable_verdict_origin:
  "stable_emotion (exec h es init) = Some m \<Longrightarrow>
     \<exists>es1 es2. es = es1 @ es2 \<and> Resume \<notin> set es2
       \<and> statistics_mode (py h) (window (exec h es1 init)) = Inr m
       \<and> STABLE_THRESHOLD \<le> count_list (window (exec h es1 init)) m
       \<and> (\<forall>y. count_list (window (exec h es1 init)) y \<le> count_list (window (exec h es1 init)) m)"
proof (induction es rule: rev_induct)
  case Nil
  then show ?case by (simp add: exec_def init_def)
next
  case (snoc e es)
  from snoc.prems have "stable_emotion (step h (exec h es init) e) = Some m"
    by (simp only: exec_snoc)
  from step_stable_origin [OF this]
  consider (old) "stable_emotion (exec h es init) = Some m" "e \<noteq> Resume"
    | (new) "statistics_mode (py h) (window (exec h (es @ [e]) init)) = Inr m"
        "STABLE_THRESHOLD \<le> count_list (window (exec h (es @ [e]) init)) m"
    by (auto simp only: exec_snoc)
  then show ?case
  proof cases
    case old
    from snoc.IH [OF old(1)] obtain es1 es2 where
      "es = es1 @ es2" "Resume \<notin> set es2"
      "statistics_mode (py h) (window (exec h es1 init)) = Inr m"
      "STABLE_THRESHOLD \<le> count_list (window (exec h es1 init)) m"
      "\<forall>y. count_list (window (exec h es1 init)) y \<le> count_list (window (exec h es1 init)) m"
      by blast
    with old(2) have "es @ [e] = es1 @ (es2 @ [e]) \<and> Resume \<notin> set (es2 @ [e])
       \<and> statistics_mode (py h) (window (exec h es1 init)) = Inr m
       \<and> STABLE_THRESHOLD \<le> count_list (window (exec h es1 init)) m
       \<and> (\<forall>y. count_list (window (exec h es1 init)) y \<le> count_list (window (exec h es1 init)) m)"
      by simp
    then show ?thesis by blast
  next
    case new
    have "\<forall>y. count_list (window (exec h (es @ [e]) init)) y
            \<le> count_list (window (exec h (es @ [e]) init)) m"
      using statistics_mode_Inr [OF new(1)] by simp
    with new have "es @ [e] = (es @ [e]) @ [] \<and> Resume \<notin> set []
       \<and> statistics_mode (py h) (window (exec h (es @ [e]) init)) = Inr m
       \<and> STABLE_THRESHOLD \<le> count_list (window (exec h (es @ [e]) init)) m
       \<and> (\<forall>y. count_list (window (exec h (es @ [e]) init)) y
              \<le> count_list (window (exec h (es @ [e]) init)) m)"
      by simp
    then show ?thesis by blast
  qed
qed

text \<open>
  Claim C3 as stated fails: after three times happy the verdict is \<open>happy\<close>; five more
  passes leave no label with three occurrences in the window, and the verdict is still
  \<open>happy\<close>, under either behaviour of \<^verbatim>\<open>statistics.mode\<close>.
\<close>

theorem verdict_outlives_mode_counterexample:
  "(let a = exec (Host Py38_or_later True)
       (map sample [''happy'', ''happy'', ''happy'', ''sad'', ''neutral'', ''angry'', ''fear'',
          ''sad'']) init
    in get_stable a = Some ''happy''
       \<and> window a = [''happy'', ''happy'', ''sad'', ''neutral'', ''angry'', ''fear'', ''sad'']
       \<and> \<not> (\<exists>l. STABLE_THRESHOLD \<le> count_list (window a) l))
   \<and> (let a = exec (Host Before_py38 True)
       (map sample [''happy'', ''happy'', ''happy'', ''sad'', ''neutral'', ''angry'', ''fear'',
          ''sad'']) init
    in get_stable a = Some ''happy''
       \<and> window a = [''happy'', ''happy'', ''sad'', ''neutral'', ''angry'', ''fear'', ''sad'']
       \<and> \<not> (\<exists>l. STABLE_THRESHOLD \<le> count_list (window a) l))"
proof -
  let ?ls = "[''happy'', ''happy'', ''happy'', ''sad'', ''neutral'', ''angry'', ''fear'', ''sad'']"
  let ?w = "[''happy'', ''happy'', ''sad'', ''neutral'', ''angry'', ''fear'', ''sad'']"
  have e: "exec (Host v True) (map sample ?ls) init = records v ?ls init" for v
    by (rule exec_samples) (simp_all add: init_def EMOJI_keys_def)
  have r: "records v ?ls init
      = \<lparr>window = ?w, running = True, paused = False, stable_emotion = Some ''happy''\<rparr>" for v
    by (cases v) (simp_all add: eval_defs)
  have c: "\<not> (\<exists>l. STABLE_THRESHOLD \<le> count_list ?w l)"
    by (auto simp: STABLE_THRESHOLD_def)
  show ?thesis unfolding Let_def e r using c by (simp add: get_stable_def)
qed

text \<open>
  The amended statement at a concrete run of three passes that all see \<open>happy\<close>.
\<close>

theorem stable_verdict_origin_witness:
  "stable_emotion (exec (Host Py38_or_later True)
      (map sample [''happy'', ''happy'', ''happy'']) init) = Some ''happy''
   \<and> (\<exists>es1 es2. map sample [''happy'', ''happy'', ''happy''] = es1 @ es2
        \<and> Resume \<notin> set es2
        \<and> statistics_mode Py38_or_later (window (exec (Host Py38_or_later True) es1 init))
            = Inr ''happy''
        \<and> STABLE_THRESHOLD
            \<le> count_list (window (exec (Host Py38_or_later True) es1 init)) ''happy'')"
proof -
  have e: "exec (Host Py38_or_later True) (map sample [''happy'', ''happy'', ''happy'']) init
      = records Py38_or_later [''happy'', ''happy'', ''happy''] init"
    by (rule exec_samples) (simp_all add: init_def EMOJI_keys_def)
  have H: "stable_emotion (exec (Host Py38_or_later True)
      (map sample [''happy'', ''happy'', ''happy'']) init) = Some ''happy''"
    unfolding e by (simp add: eval_defs)
  from stable_verdict_origin [OF H] H show ?thesis by (simp only: host.sel) blast
qed

text \<open>
  Claim C4, as amended. If a label \<open>L\<close> is recorded at least \<open>STABLE_THRESHOLD\<close> times
  within the last span of at most \<open>ROLLING_WINDOW\<close> recordings, and \<open>L\<close> is the mode that
  \<^verbatim>\<open>statistics.mode\<close> reports for the window after the last of them (which it is whenever
  \<open>L\<close> is strictly more frequent in the window than every other label), then
  \<^verbatim>\<open>get_stable\<close> returns \<open>L\<close> afterwards.
\<close>

theorem threshold_mode_verdict:
  assumes "length span \<le> ROLLING_WINDOW" and "STABLE_THRESHOLD \<le> count_list span L"
    and "L \<noteq> []"
  shows "let a' = records v (pre @ span) a in
           (statistics_mode v (window a') = Inr L \<longrightarrow> get_stable a' = Some L)
         \<and> ((\<forall>y. y \<noteq> L \<longrightarrow> count_list (window a') y < count_list (window a') L)
              \<longrightarrow> get_stable a' = Some L)"
proof -
  define a' where "a' = records v (pre @ span) a"
  obtain ys where ys: "window a' = ys @ span"
    unfolding a'_def using records_window_suffix [OF assms(1)] by blast
  have cnt: "STABLE_THRESHOLD \<le> count_list (window a') L"
    using assms(2) by (simp add: ys)
  have "span \<noteq> []" using assms(2) by (auto simp: STABLE_THRESHOLD_def)
  then obtain span' x where sp: "span = span' @ [x]" by (cases span rule: rev_cases) auto
  define b where "b = records v (pre @ span') a"
  have a'b: "a' = record_label v x b"
    unfolding a'_def b_def sp using records_snoc [of v "pre @ span'" x a] by simp
  have first: "get_stable a' = Some L" if m: "statistics_mode v (window a') = Inr L"
  proof -
    have "statistics_mode v (deque_append ROLLING_WINDOW (window b) x) = Inr L"
      and "STABLE_THRESHOLD \<le> count_list (deque_append ROLLING_WINDOW (window b) x) L"
      using m cnt unfolding a'b record_label_window by simp_all
    then show ?thesis
      unfolding a'b get_stable_def record_label_stable using assms(3) by simp
  qed
  have second: "get_stable a' = Some L"
    if u: "\<forall>y. y \<noteq> L \<longrightarrow> count_list (window a') y < count_list (window a') L"
  proof -
    have "count_list (window a') L \<noteq> 0" using cnt by (simp add: STABLE_THRESHOLD_def)
    then have "L \<in> set (window a')" by (simp add: count_list_0_iff)
    then have "statistics_mode v (window a') = Inr L"
      using u by (rule statistics_mode_strict)
    then show ?thesis by (rule first)
  qed
  show ?thesis unfolding Let_def a'_def [symmetric] using first second by blast
qed

text \<open>
  Claim C4 as stated fails: in seven recordings, four times sad and then three times happy,
  \<open>happy\<close> is recorded three times within the window, but the mode is \<open>sad\<close> and the
  verdict stays \<open>sad\<close>, under either behaviour of \<^verbatim>\<open>statistics.mode\<close>.
\<close>

theorem threshold_without_mode_counterexample:
  "length [''sad'', ''sad'', ''sad'', ''sad'', ''happy'', ''happy'', ''happy''] \<le> ROLLING_WINDOW
   \<and> STABLE_THRESHOLD
       \<le> count_list [''sad'', ''sad'', ''sad'', ''sad'', ''happy'', ''happy'', ''happy''] ''happy''
   \<and> get_stable (records Py38_or_later
        [''sad'', ''sad'', ''sad'', ''sad'', ''happy'', ''happy'', ''happy''] init) = Some ''sad''
   \<and> get_stable (records Before_py38
        [''sad'', ''sad'', ''sad'', ''sad'', ''happy'', ''happy'', ''happy''] init) = Some ''sad''
   \<and> get_stable (records Py38_or_later
        [''sad'', ''sad'', ''sad'', ''sad'', ''happy'', ''happy'', ''happy''] init) \<noteq> Some ''happy''
   \<and> get_stable (records Before_py38
        [''sad'', ''sad'', ''sad'', ''sad'', ''happy'', ''happy'', ''happy''] init) \<noteq> Some ''happy''"
proof -
  have r: "get_stable (records v
        [''sad'', ''sad'', ''sad'', ''sad'', ''happy'', ''happy'', ''happy''] init) = Some ''sad''"
    for v
    by (cases v) (simp_all add: eval_defs)
  show ?thesis unfolding r by (simp add: ROLLING_WINDOW_def STABLE_THRESHOLD_def)
qed

text \<open>
  The amended statement at a concrete run: after neutral, happy, sad, happy, happy the label
  \<open>happy\<close> is the strict mode and becomes the verdict.
\<close>

theorem threshold_mode_verdict_witness:
  "length [''happy'', ''sad'', ''happy'', ''happy''] \<le> ROLLING_WINDOW
   \<and> STABLE_THRESHOLD \<le> count_list [''happy'', ''sad'', ''happy'', ''happy''] ''happy''
   \<and> ''happy'' \<noteq> []
   \<and> statistics_mode Before_py38 (window (records Before_py38
         ([''neutral''] @ [''happy'', ''sad'', ''happy'', ''happy'']) init)) = Inr ''happy''
   \<and> \<not> (\<exists>y. y \<noteq> ''happy'' \<and>
         \<not> count_list (window (records Before_py38
             ([''neutral''] @ [''happy'', ''sad'', ''happy'', ''happy'']) init)) y
           < count_list (window (records Before_py38
             ([''neutral''] @ [''happy'', ''sad'', ''happy'', ''happy'']) init)) ''happy'')
   \<and> get_stable (records Before_py38
        ([''neutral''] @ [''happy'', ''sad'', ''happy'', ''happy'']) init) = Some ''happy''"
proof -
  let ?span = "[''happy'', ''sad'', ''happy'', ''happy'']"
  have h1: "length ?span \<le> ROLLING_WINDOW" by (simp add: ROLLING_WINDOW_def)
  have h2: "STABLE_THRESHOLD \<le> count_list ?span ''happy''" by (simp add: STABLE_THRESHOLD_def)
  have h3: "''happy'' \<noteq> []" by simp
  have w: "window (records Before_py38 ([''neutral''] @ ?span) init)
      = [''neutral'', ''happy'', ''sad'', ''happy'', ''happy'']"
    by (simp add: eval_defs)
  have u: "\<forall>y. y \<noteq> ''happy'' \<longrightarrow>
         count_list (window (records Before_py38 ([''neutral''] @ ?span) init)) y
         < count_list (window (records Before_py38 ([''neutral''] @ ?span) init)) ''happy''"
    unfolding w by auto
  note T = threshold_mode_verdict [OF h1 h2 h3, of Before_py38 "[''neutral'']" init,
      unfolded Let_def]
  have m: "statistics_mode Before_py38 (window (records Before_py38 ([''neutral''] @ ?span) init))
      = Inr ''happy''"
    unfolding w by (simp add: eval_defs)
  from T u have "get_stable (records Before_py38 ([''neutral''] @ ?span) init) = Some ''happy''"
    by blast
  with h1 h2 h3 u m show ?thesis by blast
qed

text \<open>
  Claim C5. From every state, right after \<^verbatim>\<open>resume()\<close> the analyzer is not paused, the
  window is empty and \<^verbatim>\<open>get_stable\<close> returns \<open>None\<close>; one recording after a pause and a
  resume leaves the verdict at \<open>None\<close>, whatever the label. In the scenario of the claim
  the verdict \<open>sad\<close> is reached by three recordings of \<open>sad\<close>, and after \<^verbatim>\<open>pause()\<close>,
  \<^verbatim>\<open>resume()\<close> and one recording of \<open>happy\<close> the verdict is \<open>None\<close>.
\<close>

theorem resume_resets:
  "\<not> paused (resume a) \<and> window (resume a) = [] \<and> get_stable (resume a) = None
   \<and> get_stable (record_label v l (resume (pause a))) = None
   \<and> get_stable (records v [''sad'', ''sad'', ''sad''] init) = Some ''sad''
   \<and> get_stable (record_label v ''happy''
        (resume (pause (records v [''sad'', ''sad'', ''sad''] init)))) = None"
proof -
  have one: "get_stable (record_label v k (resume (pause b))) = None" for b k
    by (cases v) (simp_all add: eval_defs Let_def)
  have flags: "\<not> paused (resume a) \<and> window (resume a) = [] \<and> get_stable (resume a) = None"
    by (simp add: resume_def get_stable_def)
  have sad: "get_stable (records v [''sad'', ''sad'', ''sad''] init) = Some ''sad''"
    by (cases v) (simp_all add: eval_defs)
  show ?thesis using flags one sad by blast
qed

text \<open>
  Claim C6. \<^verbatim>\<open>pause()\<close> sets the paused flag without clearing the window or the stable
  verdict, and while paused the sampling passes are to leave both unchanged. A pass that
  begins after \<^verbatim>\<open>pause()\<close> does (\<open>passes_begun_after_pause\<close>). A pass that has tested
  \<^verbatim>\<open>self.paused\<close> before \<^verbatim>\<open>pause()\<close> is called does not: its locked block runs after
  \<^verbatim>\<open>pause()\<close> has returned and does not test the flag again. In the run below the window
  holds happy twice and there is no verdict; the loop passes the test of line 144 and
  predicts happy; the user interface calls \<^verbatim>\<open>pause()\<close>; the loop then runs lines 152 to 162.
  The analyzer is paused, and yet the window has grown to three labels and the verdict has
  become happy, for both behaviours of \<^verbatim>\<open>statistics.mode\<close>.
\<close>

theorem pause_during_pass_records:
  "(let a0 = records v [''happy'', ''happy''] init;
        pending = pass_begin (Host v True)
          (Tick True (ReturnsDict (Face (Some ''happy'') ([] :: (string \<times> int) list))) 0) a0;
        a1 = pause a0;
        a2 = pass_commit v pending a1
    in \<not> paused a0 \<and> pending = Some ''happy''
       \<and> paused a1 \<and> window a1 = [''happy'', ''happy''] \<and> stable_emotion a1 = None
       \<and> paused a2 \<and> window a2 = [''happy'', ''happy'', ''happy'']
       \<and> stable_emotion a2 = Some ''happy'')"
proof -
  have a0: "records v [''happy'', ''happy''] init
      = \<lparr>window = [''happy'', ''happy''], running = True, paused = False,
          stable_emotion = None\<rparr>"
    by (cases v) (simp_all add: eval_defs)
  have p: "predict True (ReturnsDict (Face (Some ''happy'') ([] :: (string \<times> int) list))) 0
      = ''happy''"
    by (rule predict_sample) (simp add: EMOJI_keys_def)
  have c: "record_label v ''happy''
        \<lparr>window = [''happy'', ''happy''], running = True, paused = True,
          stable_emotion = None\<rparr>
      = \<lparr>window = [''happy'', ''happy'', ''happy''], running = True, paused = True,
          stable_emotion = Some ''happy''\<rparr>"
    by (cases v) (simp_all add: eval_defs)
  show ?thesis
    unfolding Let_def a0 by (simp add: pass_begin_def pass_commit_def pause_def p c)
qed

text \<open>
  Claim C7. For every state of the analyzer, calling \<^verbatim>\<open>pause()\<close> twice in a row gives the
  same state as calling it once, and calling \<^verbatim>\<open>resume()\<close> twice in a row gives the same
  state as calling it once.
\<close>

theorem pause_resume_idempotent:
  "pause (pause a) = pause a \<and> resume (resume a) = resume a"
  by (simp add: pause_def resume_def)

text \<open>
  Claim C8. From a fresh analyzer, with window size 7 and threshold 3, the recordings
  happy, sad, happy, neutral, happy, sad, sad give no verdict after the fourth, the verdict
  \<open>happy\<close> after the fifth, and still \<open>happy\<close> after the seventh, where happy and sad are
  tied at three. The result is the same for both behaviours of \<^verbatim>\<open>statistics.mode\<close>: before
  Python 3.8 the tie raises \<^verbatim>\<open>StatisticsError\<close>, which the code takes as no mode, and the
  verdict stays; from 3.8 on the mode is the first-seen label \<open>happy\<close>.
\<close>

theorem tie_scenario:
  "get_stable (records v [''happy'', ''sad'', ''happy'', ''neutral''] init) = None
   \<and> get_stable (records v [''happy'', ''sad'', ''happy'', ''neutral'', ''happy''] init)
       = Some ''happy''
   \<and> get_stable (records v
        [''happy'', ''sad'', ''happy'', ''neutral'', ''happy'', ''sad'', ''sad''] init)
       = Some ''happy''
   \<and> window (records v
        [''happy'', ''sad'', ''happy'', ''neutral'', ''happy'', ''sad'', ''sad''] init)
       = [''happy'', ''sad'', ''happy'', ''neutral'', ''happy'', ''sad'', ''sad'']
   \<and> statistics_mode Before_py38
        [''happy'', ''sad'', ''happy'', ''neutral'', ''happy'', ''sad'', ''sad'']
       = Inl StatisticsError
   \<and> statistics_mode Py38_or_later
        [''happy'', ''sad'', ''happy'', ''neutral'', ''happy'', ''sad'', ''sad'']
       = Inr ''happy''"
proof -
  have a4: "get_stable (records v [''happy'', ''sad'', ''happy'', ''neutral''] init) = None"
    by (cases v) (simp_all add: eval_defs)
  have a5: "get_stable (records v [''happy'', ''sad'', ''happy'', ''neutral'', ''happy''] init)
       = Some ''happy''"
    by (cases v) (simp_all add: eval_defs)
  have a7: "records v
        [''happy'', ''sad'', ''happy'', ''neutral'', ''happy'', ''sad'', ''sad''] init
       = \<lparr>window = [''happy'', ''sad'', ''happy'', ''neutral'', ''happy'', ''sad'', ''sad''],
          running = True, paused = False, stable_emotion = Some ''happy''\<rparr>"
    by (cases v) (simp_all add: eval_defs)
  have m1: "statistics_mode Before_py38
        [''happy'', ''sad'', ''happy'', ''neutral'', ''happy'', ''sad'', ''sad'']
       = Inl StatisticsError"
    by (simp add: eval_defs)
  have m2: "statistics_mode Py38_or_later
        [''happy'', ''sad'', ''happy'', ''neutral'', ''happy'', ''sad'', ''sad'']
       = Inr ''happy''"
    by (simp add: eval_defs)
  show ?thesis
    unfolding a7 using a4 a5 m1 m2 by (simp add: get_stable_def)
qed



text \<open>
  Claim C10. Every label that \<^verbatim>\<open>_predict\<close> returns is one of happy, sad, neutral, angry,
  surprise, fear, disgust; so is every label in the window of a reachable state, and the
  stable verdict of a reachable state is \<open>None\<close> or one of these seven labels.
\<close>

theorem labels_closed:
  "predict d r c \<in> {''happy'', ''sad'', ''neutral'', ''angry'', ''surprise'', ''fear'', ''disgust''}
   \<and> set (window (exec h es init))
       \<subseteq> {''happy'', ''sad'', ''neutral'', ''angry'', ''surprise'', ''fear'', ''disgust''}
   \<and> (get_stable (exec h es init) = None
       \<or> get_stable (exec h es init)
           \<in> Some ` {''happy'', ''sad'', ''neutral'', ''angry'', ''surprise'', ''fear'', ''disgust''})"
proof -
  have L: "{''happy'', ''sad'', ''neutral'', ''angry'', ''surprise'', ''fear'', ''disgust''}
      = set EMOJI_keys"
    by (simp add: EMOJI_keys_def)
  have "get_stable (exec h es init) = None \<or> get_stable (exec h es init) \<in> Some ` set EMOJI_keys"
    using exec_labels [of h es] by (cases "stable_emotion (exec h es init)") (simp_all add: get_stable_def)
  then show ?thesis
    unfolding L using predict_mem [of d r c] exec_labels [of h es] by simp
qed

end
